theory Spec2Isabelle
  imports Main
begin

section \<open>The discovery sink of the control plane\<close>

text \<open>
  The Go package \<^verbatim>\<open>discovery\<close> (file \<^verbatim>\<open>pkg/core/discovery/sink.go\<close>) declares
  \<^verbatim>\<open>DiscoverySink\<close>, a struct with one field \<^verbatim>\<open>Consumer\<close> of the interface type
  \<^verbatim>\<open>DiscoveryConsumer\<close>, the method \<^verbatim>\<open>AddConsumer\<close> that stores into the field, and
  four event methods that forward to the stored consumer when it is not \<^verbatim>\<open>nil\<close>.

  All methods have pointer receivers, sinks are shared and mutated in place, and a sink
  can be the consumer of another sink. The model therefore keeps the sinks in an
  explicit store and passes the store through every operation.
\<close>

subsection \<open>Data\<close>

type_synonym addr = nat

text \<open>
  Modelled from the spec: \<^verbatim>\<open>core.NamespacedName\<close> is declared in the package
  \<^verbatim>\<open>pkg/core\<close>, not in \<^verbatim>\<open>sink.go\<close>; the spec describes it as a two-part identifier
  (namespace, name) compared field by field.
\<close>

record NamespacedName =
  Namespace :: string
  Name :: string

text \<open>
  A non-nil value of the interface type \<^verbatim>\<open>DiscoveryConsumer\<close>: its dynamic type is
  either \<^verbatim>\<open>*DiscoverySink\<close> (a pointer to a sink) or some other implementation, known
  by a number. The nil interface value is \<open>None\<close> of the option type around
  it. A \<open>SinkPtr a\<close> whose address holds no sink in the
  store is the nil pointer of type \<^verbatim>\<open>*DiscoverySink\<close>: as an interface value it is not
  nil, and dereferencing it panics.
\<close>

datatype DiscoveryConsumer = SinkPtr addr | Impl nat

record DiscoverySink =
  Consumer :: "DiscoveryConsumer option"

datatype panic = NilDereference | Raised string

text \<open>
  The four event kinds with their payloads. \<^verbatim>\<open>OnServiceUpdate\<close> and
  \<^verbatim>\<open>OnWorkloadUpdate\<close> take pointers (\<^verbatim>\<open>*ServiceInfo\<close>, \<^verbatim>\<open>*WorkloadInfo\<close>), the two
  delete methods take a \<^verbatim>\<open>NamespacedName\<close> by value.
\<close>

datatype event =
    ServiceUpdate addr
  | ServiceDelete NamespacedName
  | WorkloadUpdate addr
  | WorkloadDelete NamespacedName

text \<open>
  One executed call \<^verbatim>\<open>s.Consumer.OnK(p)\<close>: the interface value that was called and the
  event (kind and payload) handed to it.
\<close>

datatype call = Call DiscoveryConsumer event

text \<open>
  The store: the allocated sinks, the \<^verbatim>\<open>ServiceInfo\<close> and \<^verbatim>\<open>WorkloadInfo\<close> structs
  that payload pointers point to (their types are declared in other files of the package
  and are parameters here), and whatever state the other implementations of
  \<^verbatim>\<open>DiscoveryConsumer\<close> own.
\<close>

record ('svc, 'wrk, 'x) world =
  sinks :: "addr \<rightharpoonup> DiscoverySink"
  services :: "addr \<rightharpoonup> 'svc"
  workloads :: "addr \<rightharpoonup> 'wrk"
  foreign :: 'x

text \<open>
  What a call yields: a panic, or the returned \<^verbatim>\<open>error\<close> (\<open>None\<close> is the nil
  error). A call that never returns yields no value at all (\<open>None\<close> of the option
  around it).
\<close>

type_synonym 'e outcome = "panic + 'e option"

type_synonym ('svc, 'wrk, 'x, 'e) callee =
  "('svc, 'wrk, 'x) world \<Rightarrow> ('e outcome \<times> ('svc, 'wrk, 'x) world) option"

text \<open>
  The implementations of \<^verbatim>\<open>DiscoveryConsumer\<close> other than the sink live in other
  packages: they are a parameter, one method table for all of them, indexed by
  the implementation's number. Such a method is any partial function on the whole
  store, so it may fail, panic, not return, change the payload structs, and even
  rewire a sink.
\<close>

record ('svc, 'wrk, 'x, 'e) impls =
  implOnServiceUpdate :: "nat \<Rightarrow> addr \<Rightarrow> ('svc, 'wrk, 'x, 'e) callee"
  implOnServiceDelete :: "nat \<Rightarrow> NamespacedName \<Rightarrow> ('svc, 'wrk, 'x, 'e) callee"
  implOnWorkloadUpdate :: "nat \<Rightarrow> addr \<Rightarrow> ('svc, 'wrk, 'x, 'e) callee"
  implOnWorkloadDelete :: "nat \<Rightarrow> NamespacedName \<Rightarrow> ('svc, 'wrk, 'x, 'e) callee"

type_synonym ('svc, 'wrk, 'x, 'e) run =
  "('e outcome \<times> ('svc, 'wrk, 'x) world \<times> call list) option"

subsection \<open>Operations\<close>

text \<open>
  \<^verbatim>\<open>func (s *DiscoverySink) AddConsumer(c DiscoveryConsumer) { s.Consumer = c }\<close>

  The assignment dereferences the receiver, so a nil receiver panics.
\<close>

definition AddConsumer ::
  "addr \<Rightarrow> DiscoveryConsumer option \<Rightarrow> ('svc, 'wrk, 'x) world \<Rightarrow> panic + ('svc, 'wrk, 'x) world"
where
  "AddConsumer s c w =
     (case sinks w s of
        None \<Rightarrow> Inl NilDereference
      | Some sk \<Rightarrow> Inr (w\<lparr>sinks := (sinks w)(s \<mapsto> sk\<lparr>Consumer := c\<rparr>)\<rparr>))"

text \<open>
  A call of an implementation other than the sink, recorded as the one call \<open>k\<close>.
\<close>

definition leaf :: "call \<Rightarrow> ('a \<times> 'w) option \<Rightarrow> ('a \<times> 'w \<times> call list) option" where
  "leaf k m = (case m of None \<Rightarrow> None | Some (r, w') \<Rightarrow> Some (r, w', [k]))"

text \<open>
  The four event methods. Each reads \<^verbatim>\<open>s.Consumer\<close> (a nil receiver panics), returns
  nil when the field is nil, and otherwise returns what the same method of the consumer
  returns. The call through the interface dispatches on the dynamic type: for a sink it
  is the method itself again, for another implementation its entry in the method table.
  Every such call is recorded in the list of calls that the method yields next to the
  outcome and the store. A chain of sinks that never ends (a sink wired to itself) makes
  the method recurse for ever: it yields \<open>None\<close>.
\<close>

partial_function (option) OnServiceUpdate ::
  "('svc, 'wrk, 'x, 'e) impls \<Rightarrow> addr \<Rightarrow> addr \<Rightarrow> ('svc, 'wrk, 'x) world \<Rightarrow> ('svc, 'wrk, 'x, 'e) run"
where
  "OnServiceUpdate H s svc w =
     (case sinks w s of
        None \<Rightarrow> Some (Inl NilDereference, w, [])
      | Some sk \<Rightarrow>
          (case Consumer sk of
             None \<Rightarrow> Some (Inr None, w, [])
           | Some c \<Rightarrow>
               (case c of
                  SinkPtr b \<Rightarrow>
                    Option.bind (OnServiceUpdate H b svc w)
                      (\<lambda>(r, w', cs). Some (r, w', Call c (ServiceUpdate svc) # cs))
                | Impl i \<Rightarrow>
                    leaf (Call c (ServiceUpdate svc)) (implOnServiceUpdate H i svc w))))"

partial_function (option) OnServiceDelete ::
  "('svc, 'wrk, 'x, 'e) impls \<Rightarrow> addr \<Rightarrow> NamespacedName \<Rightarrow> ('svc, 'wrk, 'x) world \<Rightarrow> ('svc, 'wrk, 'x, 'e) run"
where
  "OnServiceDelete H s name w =
     (case sinks w s of
        None \<Rightarrow> Some (Inl NilDereference, w, [])
      | Some sk \<Rightarrow>
          (case Consumer sk of
             None \<Rightarrow> Some (Inr None, w, [])
           | Some c \<Rightarrow>
               (case c of
                  SinkPtr b \<Rightarrow>
                    Option.bind (OnServiceDelete H b name w)
                      (\<lambda>(r, w', cs). Some (r, w', Call c (ServiceDelete name) # cs))
                | Impl i \<Rightarrow>
                    leaf (Call c (ServiceDelete name)) (implOnServiceDelete H i name w))))"

partial_function (option) OnWorkloadUpdate ::
  "('svc, 'wrk, 'x, 'e) impls \<Rightarrow> addr \<Rightarrow> addr \<Rightarrow> ('svc, 'wrk, 'x) world \<Rightarrow> ('svc, 'wrk, 'x, 'e) run"
where
  "OnWorkloadUpdate H s wrk w =
     (case sinks w s of
        None \<Rightarrow> Some (Inl NilDereference, w, [])
      | Some sk \<Rightarrow>
          (case Consumer sk of
             None \<Rightarrow> Some (Inr None, w, [])
           | Some c \<Rightarrow>
               (case c of
                  SinkPtr b \<Rightarrow>
                    Option.bind (OnWorkloadUpdate H b wrk w)
                      (\<lambda>(r, w', cs). Some (r, w', Call c (WorkloadUpdate wrk) # cs))
                | Impl i \<Rightarrow>
                    leaf (Call c (WorkloadUpdate wrk)) (implOnWorkloadUpdate H i wrk w))))"

partial_function (option) OnWorkloadDelete ::
  "('svc, 'wrk, 'x, 'e) impls \<Rightarrow> addr \<Rightarrow> NamespacedName \<Rightarrow> ('svc, 'wrk, 'x) world \<Rightarrow> ('svc, 'wrk, 'x, 'e) run"
where
  "OnWorkloadDelete H s name w =
     (case sinks w s of
        None \<Rightarrow> Some (Inl NilDereference, w, [])
      | Some sk \<Rightarrow>
          (case Consumer sk of
             None \<Rightarrow> Some (Inr None, w, [])
           | Some c \<Rightarrow>
               (case c of
                  SinkPtr b \<Rightarrow>
                    Option.bind (OnWorkloadDelete H b name w)
                      (\<lambda>(r, w', cs). Some (r, w', Call c (WorkloadDelete name) # cs))
                | Impl i \<Rightarrow>
                    leaf (Call c (WorkloadDelete name)) (implOnWorkloadDelete H i name w))))"

subsection \<open>Events of any kind\<close>

text \<open>
  \<open>OnEvent\<close> calls the method of the sink that belongs to the event's kind,
  \<open>handler\<close> the method of another implementation, and \<open>invoke\<close> is the call
  \<^verbatim>\<open>c.OnK(p)\<close> through a non-nil interface value \<open>c\<close>, yielding the calls made
  inside it.
\<close>

definition OnEvent ::
  "('svc, 'wrk, 'x, 'e) impls \<Rightarrow> addr \<Rightarrow> event \<Rightarrow> ('svc, 'wrk, 'x) world \<Rightarrow> ('svc, 'wrk, 'x, 'e) run"
where
  "OnEvent H s e w =
     (case e of
        ServiceUpdate svc \<Rightarrow> OnServiceUpdate H s svc w
      | ServiceDelete name \<Rightarrow> OnServiceDelete H s name w
      | WorkloadUpdate wrk \<Rightarrow> OnWorkloadUpdate H s wrk w
      | WorkloadDelete name \<Rightarrow> OnWorkloadDelete H s name w)"

definition handler ::
  "('svc, 'wrk, 'x, 'e) impls \<Rightarrow> nat \<Rightarrow> event \<Rightarrow> ('svc, 'wrk, 'x, 'e) callee"
where
  "handler H i e =
     (case e of
        ServiceUpdate svc \<Rightarrow> implOnServiceUpdate H i svc
      | ServiceDelete name \<Rightarrow> implOnServiceDelete H i name
      | WorkloadUpdate wrk \<Rightarrow> implOnWorkloadUpdate H i wrk
      | WorkloadDelete name \<Rightarrow> implOnWorkloadDelete H i name)"

definition invoke ::
  "('svc, 'wrk, 'x, 'e) impls \<Rightarrow> DiscoveryConsumer \<Rightarrow> event \<Rightarrow> ('svc, 'wrk, 'x) world \<Rightarrow> ('svc, 'wrk, 'x, 'e) run"
where
  "invoke H c e w =
     (case c of
        SinkPtr b \<Rightarrow> OnEvent H b e w
      | Impl i \<Rightarrow> (case handler H i e w of None \<Rightarrow> None | Some (r, w') \<Rightarrow> Some (r, w', [])))"

text \<open>The call \<open>k\<close> followed by the calls made inside it.\<close>

definition logged :: "call \<Rightarrow> ('a \<times> 'w \<times> call list) option \<Rightarrow> ('a \<times> 'w \<times> call list) option" where
  "logged k m = (case m of None \<Rightarrow> None | Some (r, w', cs) \<Rightarrow> Some (r, w', k # cs))"

text \<open>
  The two states of a sink that exists in the store: \<open>wired\<close> when its field holds a
  consumer, \<open>unwired\<close> when the field is nil.
\<close>

definition wired :: "('svc, 'wrk, 'x) world \<Rightarrow> addr \<Rightarrow> bool" where
  "wired w s = (case sinks w s of None \<Rightarrow> False | Some sk \<Rightarrow> Consumer sk \<noteq> None)"

definition unwired :: "('svc, 'wrk, 'x) world \<Rightarrow> addr \<Rightarrow> bool" where
  "unwired w s = (case sinks w s of None \<Rightarrow> False | Some sk \<Rightarrow> Consumer sk = None)"

text \<open>
  A source that pushes a list of events into the sink \<open>s\<close>, one call after the other.
  It goes on after an error was returned, and a panic ends it. It yields the outcomes in
  order, the last store and all calls in order.
\<close>

fun push ::
  "('svc, 'wrk, 'x, 'e) impls \<Rightarrow> addr \<Rightarrow> event list \<Rightarrow> ('svc, 'wrk, 'x) world \<Rightarrow>
     ('e outcome list \<times> ('svc, 'wrk, 'x) world \<times> call list) option"
where
  "push H s [] w = Some ([], w, [])"
| "push H s (e # es) w =
     (case OnEvent H s e w of
        None \<Rightarrow> None
      | Some (r, w1, cs) \<Rightarrow>
          (case r of
             Inl p \<Rightarrow> Some ([r], w1, cs)
           | Inr err \<Rightarrow>
               (case push H s es w1 of
                  None \<Rightarrow> None
                | Some (rs, w2, cs') \<Rightarrow> Some (r # rs, w2, cs @ cs'))))"

text \<open>
  The same source calling the implementation \<open>i\<close> itself, with no sink in between.
\<close>

fun deliver ::
  "('svc, 'wrk, 'x, 'e) impls \<Rightarrow> nat \<Rightarrow> event list \<Rightarrow> ('svc, 'wrk, 'x) world \<Rightarrow>
     ('e outcome list \<times> ('svc, 'wrk, 'x) world) option"
where
  "deliver H i [] w = Some ([], w)"
| "deliver H i (e # es) w =
     (case handler H i e w of
        None \<Rightarrow> None
      | Some (r, w1) \<Rightarrow>
          (case r of
             Inl p \<Rightarrow> Some ([r], w1)
           | Inr err \<Rightarrow>
               (case deliver H i es w1 of
                  None \<Rightarrow> None
                | Some (rs, w2) \<Rightarrow> Some (r # rs, w2))))"

text \<open>
  A source that calls the consumer \<open>c\<close> itself for each event of a list, with no sink
  in between: one call \<^verbatim>\<open>c.OnK(p)\<close> per event, in the order of the list, each recorded
  and followed by the calls made inside it. A panic ends it.
\<close>

fun feed ::
  "('svc, 'wrk, 'x, 'e) impls \<Rightarrow> DiscoveryConsumer \<Rightarrow> event list \<Rightarrow> ('svc, 'wrk, 'x) world \<Rightarrow>
     ('e outcome list \<times> ('svc, 'wrk, 'x) world \<times> call list) option"
where
  "feed H c [] w = Some ([], w, [])"
| "feed H c (e # es) w =
     (case invoke H c e w of
        None \<Rightarrow> None
      | Some (r, w1, cs) \<Rightarrow>
          (case r of
             Inl p \<Rightarrow> Some ([r], w1, Call c e # cs)
           | Inr err \<Rightarrow>
               (case feed H c es w1 of
                  None \<Rightarrow> None
                | Some (rs, w2, cs') \<Rightarrow> Some (r # rs, w2, Call c e # cs @ cs'))))"

text \<open>
  The field of the sink \<open>s\<close> holds the consumer \<open>c\<close> each time an event of the list
  is about to be pushed: nobody, the consumer's own methods included, has stored
  something else into it since the event before.
\<close>

fun stays ::
  "('svc, 'wrk, 'x, 'e) impls \<Rightarrow> addr \<Rightarrow> DiscoveryConsumer \<Rightarrow> event list \<Rightarrow>
     ('svc, 'wrk, 'x) world \<Rightarrow> bool"
where
  "stays H s c [] w = True"
| "stays H s c (e # es) w =
     ((case sinks w s of None \<Rightarrow> False | Some sk \<Rightarrow> Consumer sk = Some c) \<and>
      (case invoke H c e w of
         None \<Rightarrow> True
       | Some (r, w1, cs) \<Rightarrow> (case r of Inl p \<Rightarrow> True | Inr err \<Rightarrow> stays H s c es w1)))"

text \<open>
  The operations on one sink, and a caller that runs a list of them on \<open>s\<close>. A panic
  ends the run with the store as it is then.
\<close>

datatype operation = DoAddConsumer "DiscoveryConsumer option" | DoEvent event

fun operate ::
  "('svc, 'wrk, 'x, 'e) impls \<Rightarrow> addr \<Rightarrow> operation list \<Rightarrow> ('svc, 'wrk, 'x) world \<Rightarrow>
     ('svc, 'wrk, 'x) world option"
where
  "operate H s [] w = Some w"
| "operate H s (DoAddConsumer c # ops) w =
     (case AddConsumer s c w of
        Inl p \<Rightarrow> Some w
      | Inr w1 \<Rightarrow> operate H s ops w1)"
| "operate H s (DoEvent e # ops) w =
     (case OnEvent H s e w of
        None \<Rightarrow> None
      | Some (r, w1, cs) \<Rightarrow>
          (case r of
             Inl p \<Rightarrow> Some w1
           | Inr err \<Rightarrow> operate H s ops w1))"

text \<open>
  What a run of an event method can be at all: the calls are hops from sink to sink, all
  with the event \<open>e\<close>, and either the run ended inside the sinks (panic on a nil
  pointer, or nil at an unwired sink) with the store untouched, or the last call went to
  another implementation, whose outcome and store are the run's.
\<close>

definition hops :: "event \<Rightarrow> addr list \<Rightarrow> call list" where
  "hops e bs = map (\<lambda>b. Call (SinkPtr b) e) bs"

definition passes_on ::
  "('svc, 'wrk, 'x, 'e) impls \<Rightarrow> event \<Rightarrow> ('svc, 'wrk, 'x) world \<Rightarrow>
     'e outcome \<times> ('svc, 'wrk, 'x) world \<times> call list \<Rightarrow> bool"
where
  "passes_on H e w y =
     (\<exists>bs. (snd (snd y) = hops e bs \<and> fst (snd y) = w \<and>
             (fst y = Inl NilDereference \<or> fst y = Inr None)) \<or>
           (\<exists>i. snd (snd y) = hops e bs @ [Call (Impl i) e] \<and>
                handler H i e w = Some (fst y, fst (snd y))))"

subsection \<open>Examples\<close>

text \<open>
  A store with six sinks: sink 0 is wired to sink 1, sink 1 to the implementation 7,
  sink 2 to itself, sink 3 is unwired, sink 4 is wired to a nil pointer of type
  \<^verbatim>\<open>*DiscoverySink\<close> (address 9 holds no sink), and sink 8 is wired to the
  implementation 2. Address 5 holds a service, address 6 a workload.
\<close>

definition w_ex :: "(string, string, call list) world" where
  "w_ex =
     \<lparr>sinks = [0 \<mapsto> \<lparr>Consumer = Some (SinkPtr 1)\<rparr>,
               1 \<mapsto> \<lparr>Consumer = Some (Impl 7)\<rparr>,
               2 \<mapsto> \<lparr>Consumer = Some (SinkPtr 2)\<rparr>,
               3 \<mapsto> \<lparr>Consumer = None\<rparr>,
               4 \<mapsto> \<lparr>Consumer = Some (SinkPtr 9)\<rparr>,
               8 \<mapsto> \<lparr>Consumer = Some (Impl 2)\<rparr>],
      services = [5 \<mapsto> ''svc1''],
      workloads = [6 \<mapsto> ''wrk1''],
      foreign = []\<rparr>"

text \<open>
  A recording implementation: every method appends the call to the list it keeps in the
  foreign part of the store. Implementation 7 returns nil, every other one the error
  \<open>''unavailable''\<close>.
\<close>

definition record_call ::
  "nat \<Rightarrow> event \<Rightarrow> (string, string, call list, string) callee" where
  "record_call i e w =
     Some (Inr (if i = 7 then None else Some ''unavailable''),
           w\<lparr>foreign := foreign w @ [Call (Impl i) e]\<rparr>)"

definition H_ex :: "(string, string, call list, string) impls" where
  "H_ex =
     \<lparr>implOnServiceUpdate = (\<lambda>i svc. record_call i (ServiceUpdate svc)),
      implOnServiceDelete = (\<lambda>i name. record_call i (ServiceDelete name)),
      implOnWorkloadUpdate = (\<lambda>i wrk. record_call i (WorkloadUpdate wrk)),
      implOnWorkloadDelete = (\<lambda>i name. record_call i (WorkloadDelete name))\<rparr>"

definition ns1_svc1 :: NamespacedName where
  "ns1_svc1 = \<lparr>Namespace = ''ns1'', Name = ''svc1''\<rparr>"

text \<open>The example store after \<^verbatim>\<open>AddConsumer(nil)\<close> on sink 1.\<close>

definition w_detached :: "(string, string, call list) world" where
  "w_detached = w_ex\<lparr>sinks := (sinks w_ex)(1 \<mapsto> \<lparr>Consumer = None\<rparr>)\<rparr>"

text \<open>
  An implementation that takes one event only: every method records the call, detaches
  the implementation from sink 1 by \<^verbatim>\<open>AddConsumer(nil)\<close>, and returns nil.
\<close>

definition detach_after ::
  "nat \<Rightarrow> event \<Rightarrow> (string, string, call list, string) callee" where
  "detach_after i e w =
     (case AddConsumer 1 None (w\<lparr>foreign := foreign w @ [Call (Impl i) e]\<rparr>) of
        Inl p \<Rightarrow> Some (Inl p, w)
      | Inr w1 \<Rightarrow> Some (Inr None, w1))"

definition H_once :: "(string, string, call list, string) impls" where
  "H_once =
     \<lparr>implOnServiceUpdate = (\<lambda>i svc. detach_after i (ServiceUpdate svc)),
      implOnServiceDelete = (\<lambda>i name. detach_after i (ServiceDelete name)),
      implOnWorkloadUpdate = (\<lambda>i wrk. detach_after i (WorkloadUpdate wrk)),
      implOnWorkloadDelete = (\<lambda>i name. detach_after i (WorkloadDelete name))\<rparr>"

text \<open>The example store after that implementation took \<^verbatim>\<open>OnServiceUpdate\<close> through sink 1.\<close>

definition w_once :: "(string, string, call list) world" where
  "w_once = w_detached\<lparr>foreign := [Call (Impl 7) (ServiceUpdate 5)]\<rparr>"

section \<open>Auxiliary facts\<close>

subsection \<open>Unfolding the methods\<close>

lemma logged_leaf:
  "logged k (case m of None \<Rightarrow> None | Some (r, w') \<Rightarrow> Some (r, w', [])) = leaf k m"
  by (simp add: logged_def leaf_def split: option.splits)

lemma logged_bind:
  "Option.bind m (\<lambda>(r, w', cs). Some (r, w', k # cs)) = logged k m"
  by (cases m) (simp_all add: logged_def)

text \<open>
  One step of any event method: panic on a nil receiver, nil when unwired, and otherwise
  exactly the one call of the same method of the consumer, with the same payload, on the
  same store, whose outcome and store are passed back as they are.
\<close>

lemma OnEvent_unfold:
  "OnEvent H s e w =
     (case sinks w s of
        None \<Rightarrow> Some (Inl NilDereference, w, [])
      | Some sk \<Rightarrow>
          (case Consumer sk of
             None \<Rightarrow> Some (Inr None, w, [])
           | Some c \<Rightarrow> logged (Call c e) (invoke H c e w)))"
proof (cases e)
  case (ServiceUpdate svc)
  show ?thesis
    unfolding ServiceUpdate OnEvent_def invoke_def handler_def
    by (subst OnServiceUpdate.simps)
       (simp add: logged_bind logged_leaf OnEvent_def split: option.splits DiscoveryConsumer.splits)
next
  case (ServiceDelete name)
  show ?thesis
    unfolding ServiceDelete OnEvent_def invoke_def handler_def
    by (subst OnServiceDelete.simps)
       (simp add: logged_bind logged_leaf OnEvent_def split: option.splits DiscoveryConsumer.splits)
next
  case (WorkloadUpdate wrk)
  show ?thesis
    unfolding WorkloadUpdate OnEvent_def invoke_def handler_def
    by (subst OnWorkloadUpdate.simps)
       (simp add: logged_bind logged_leaf OnEvent_def split: option.splits DiscoveryConsumer.splits)
next
  case (WorkloadDelete name)
  show ?thesis
    unfolding WorkloadDelete OnEvent_def invoke_def handler_def
    by (subst OnWorkloadDelete.simps)
       (simp add: logged_bind logged_leaf OnEvent_def split: option.splits DiscoveryConsumer.splits)
qed


subsection \<open>Every run passes the event on and does nothing else\<close>

lemma passes_on_stop:
  "passes_on H e w (Inl NilDereference, w, [])"
  "passes_on H e w (Inr None, w, [])"
  unfolding passes_on_def hops_def by (rule exI[of _ "[]"], simp)+

lemma passes_on_leaf:
  "handler H i e w = Some (r, w') \<Longrightarrow> passes_on H e w (r, w', [Call (Impl i) e])"
  unfolding passes_on_def hops_def by (rule exI[of _ "[]"]) simp

lemma passes_on_hop:
  assumes "passes_on H e w y"
  shows "passes_on H e w (fst y, fst (snd y), Call (SinkPtr b) e # snd (snd y))"
proof -
  from assms obtain bs where
    bs: "(snd (snd y) = hops e bs \<and> fst (snd y) = w \<and>
             (fst y = Inl NilDereference \<or> fst y = Inr None)) \<or>
           (\<exists>i. snd (snd y) = hops e bs @ [Call (Impl i) e] \<and>
                handler H i e w = Some (fst y, fst (snd y)))"
    unfolding passes_on_def by blast
  show ?thesis
    unfolding passes_on_def
    by (rule exI[of _ "b # bs"]) (use bs in \<open>auto simp: hops_def\<close>)
qed

lemma OnServiceUpdate_run:
  assumes "OnServiceUpdate H s p w = Some y"
  shows "passes_on H (ServiceUpdate p) w y"
  using assms
proof (induction rule: OnServiceUpdate.raw_induct[rotated 1, consumes 1])
  case (1 f H s p w y)
  show ?case
  proof (cases "sinks w s")
    case None
    with 1(2) show ?thesis by (auto intro: passes_on_stop)
  next
    case (Some sk)
    note sk = this
    show ?thesis
    proof (cases "Consumer sk")
      case None
      with 1(2) sk show ?thesis by (auto intro: passes_on_stop)
    next
      case (Some c)
      show ?thesis
      proof (cases c)
        case (SinkPtr b)
        with 1(2) sk Some obtain y' where
          y': "f H b p w = Some y'" and
          y: "y = (fst y', fst (snd y'), Call (SinkPtr b) (ServiceUpdate p) # snd (snd y'))"
          by (auto simp: bind_eq_Some_conv)
        from 1(1)[OF y'] show ?thesis unfolding y by (rule passes_on_hop)
      next
        case (Impl i)
        with 1(2) sk Some show ?thesis
          by (auto simp: leaf_def handler_def split: option.splits intro!: passes_on_leaf)
      qed
    qed
  qed
qed

lemma OnServiceDelete_run:
  assumes "OnServiceDelete H s p w = Some y"
  shows "passes_on H (ServiceDelete p) w y"
  using assms
proof (induction rule: OnServiceDelete.raw_induct[rotated 1, consumes 1])
  case (1 f H s p w y)
  show ?case
  proof (cases "sinks w s")
    case None
    with 1(2) show ?thesis by (auto intro: passes_on_stop)
  next
    case (Some sk)
    note sk = this
    show ?thesis
    proof (cases "Consumer sk")
      case None
      with 1(2) sk show ?thesis by (auto intro: passes_on_stop)
    next
      case (Some c)
      show ?thesis
      proof (cases c)
        case (SinkPtr b)
        with 1(2) sk Some obtain y' where
          y': "f H b p w = Some y'" and
          y: "y = (fst y', fst (snd y'), Call (SinkPtr b) (ServiceDelete p) # snd (snd y'))"
          by (auto simp: bind_eq_Some_conv)
        from 1(1)[OF y'] show ?thesis unfolding y by (rule passes_on_hop)
      next
        case (Impl i)
        with 1(2) sk Some show ?thesis
          by (auto simp: leaf_def handler_def split: option.splits intro!: passes_on_leaf)
      qed
    qed
  qed
qed

lemma OnWorkloadUpdate_run:
  assumes "OnWorkloadUpdate H s p w = Some y"
  shows "passes_on H (WorkloadUpdate p) w y"
  using assms
proof (induction rule: OnWorkloadUpdate.raw_induct[rotated 1, consumes 1])
  case (1 f H s p w y)
  show ?case
  proof (cases "sinks w s")
    case None
    with 1(2) show ?thesis by (auto intro: passes_on_stop)
  next
    case (Some sk)
    note sk = this
    show ?thesis
    proof (cases "Consumer sk")
      case None
      with 1(2) sk show ?thesis by (auto intro: passes_on_stop)
    next
      case (Some c)
      show ?thesis
      proof (cases c)
        case (SinkPtr b)
        with 1(2) sk Some obtain y' where
          y': "f H b p w = Some y'" and
          y: "y = (fst y', fst (snd y'), Call (SinkPtr b) (WorkloadUpdate p) # snd (snd y'))"
          by (auto simp: bind_eq_Some_conv)
        from 1(1)[OF y'] show ?thesis unfolding y by (rule passes_on_hop)
      next
        case (Impl i)
        with 1(2) sk Some show ?thesis
          by (auto simp: leaf_def handler_def split: option.splits intro!: passes_on_leaf)
      qed
    qed
  qed
qed

lemma OnWorkloadDelete_run:
  assumes "OnWorkloadDelete H s p w = Some y"
  shows "passes_on H (WorkloadDelete p) w y"
  using assms
proof (induction rule: OnWorkloadDelete.raw_induct[rotated 1, consumes 1])
  case (1 f H s p w y)
  show ?case
  proof (cases "sinks w s")
    case None
    with 1(2) show ?thesis by (auto intro: passes_on_stop)
  next
    case (Some sk)
    note sk = this
    show ?thesis
    proof (cases "Consumer sk")
      case None
      with 1(2) sk show ?thesis by (auto intro: passes_on_stop)
    next
      case (Some c)
      show ?thesis
      proof (cases c)
        case (SinkPtr b)
        with 1(2) sk Some obtain y' where
          y': "f H b p w = Some y'" and
          y: "y = (fst y', fst (snd y'), Call (SinkPtr b) (WorkloadDelete p) # snd (snd y'))"
          by (auto simp: bind_eq_Some_conv)
        from 1(1)[OF y'] show ?thesis unfolding y by (rule passes_on_hop)
      next
        case (Impl i)
        with 1(2) sk Some show ?thesis
          by (auto simp: leaf_def handler_def split: option.splits intro!: passes_on_leaf)
      qed
    qed
  qed
qed

lemma OnEvent_run:
  assumes "OnEvent H s e w = Some y"
  shows "passes_on H e w y"
  using assms
  by (cases e)
     (simp_all add: OnEvent_def OnServiceUpdate_run OnServiceDelete_run
        OnWorkloadUpdate_run OnWorkloadDelete_run)

text \<open>
  The store after a run is the store before it, or the store that one method of another
  implementation left; the outcome is a nil-pointer panic or nil of the sinks' own, or
  that method's outcome.
\<close>

lemma OnEvent_cases:
  assumes "OnEvent H s e w = Some (r, w', cs)"
  obtains (stop) "w' = w" "r = Inl NilDereference \<or> r = Inr None"
    | (forwarded) i where "handler H i e w = Some (r, w')"
  using OnEvent_run[OF assms] unfolding passes_on_def by auto

subsection \<open>A sink wired to another implementation\<close>

lemma OnEvent_wired_impl:
  assumes "sinks w s = Some sk" and "Consumer sk = Some (Impl i)"
  shows "OnEvent H s e w =
           (case handler H i e w of
              None \<Rightarrow> None
            | Some (r, w') \<Rightarrow> Some (r, w', [Call (Impl i) e]))"
  using assms by (simp add: OnEvent_unfold invoke_def logged_def split: option.splits)

lemma OnEvent_sink_kept:
  assumes run: "OnEvent H s e w = Some (r, w', cs)"
      and frame: "\<forall>i e w0 r w1. handler H i e w0 = Some (r, w1) \<longrightarrow> sinks w1 s = sinks w0 s"
  shows "sinks w' s = sinks w s"
  using run
proof (cases rule: OnEvent_cases)
  case stop
  then show ?thesis by simp
next
  case (forwarded i)
  with frame show ?thesis by blast
qed

subsection \<open>The two states of a sink\<close>

lemma AddConsumer_wired:
  assumes "AddConsumer s c w = Inr w1"
  shows "wired w1 s \<longleftrightarrow> c \<noteq> None" and "unwired w1 s \<longleftrightarrow> c = None"
  using assms by (auto simp: AddConsumer_def wired_def unwired_def split: option.splits)

lemma operate_wired:
  assumes frame: "\<forall>i e w0 r w1. handler H i e w0 = Some (r, w1) \<longrightarrow> sinks w1 s = sinks w0 s"
      and adds: "DoAddConsumer None \<notin> set ops"
      and start: "wired w s"
      and run: "operate H s ops w = Some w'"
  shows "wired w' s"
  using adds start run
proof (induction ops arbitrary: w)
  case Nil
  then show ?case by simp
next
  case (Cons op ops)
  show ?case
  proof (cases op)
    case (DoAddConsumer c)
    with Cons.prems(1) have c: "c \<noteq> None" by (cases c) auto
    show ?thesis
    proof (cases "AddConsumer s c w")
      case (Inl p)
      with Cons.prems DoAddConsumer show ?thesis by simp
    next
      case (Inr w1)
      with AddConsumer_wired(1)[OF Inr] c have "wired w1 s" by simp
      with Cons.IH[of w1] Cons.prems DoAddConsumer Inr show ?thesis by simp
    qed
  next
    case (DoEvent e)
    show ?thesis
    proof (cases "OnEvent H s e w")
      case None
      with Cons.prems DoEvent show ?thesis by simp
    next
      case (Some y)
      obtain r w1 cs where y: "y = (r, w1, cs)" by (cases y)
      from OnEvent_sink_kept[OF Some[unfolded y] frame] Cons.prems(2)
      have w1: "wired w1 s" by (simp add: wired_def)
      show ?thesis
      proof (cases r)
        case (Inl p)
        with Cons.prems DoEvent Some y w1 show ?thesis by simp
      next
        case (Inr err)
        with Cons.IH[of w1] Cons.prems DoEvent Some y w1 show ?thesis by simp
      qed
    qed
  qed
qed

subsection \<open>The example store\<close>

lemma handler_H_ex: "handler H_ex i e w = record_call i e w"
  by (cases e) (simp_all add: handler_def H_ex_def)

lemma run_ex:
  "OnEvent H_ex 0 (ServiceUpdate 5) w_ex =
     Some (Inr None, w_ex\<lparr>foreign := [Call (Impl 7) (ServiceUpdate 5)]\<rparr>,
           [Call (SinkPtr 1) (ServiceUpdate 5), Call (Impl 7) (ServiceUpdate 5)])"
  "OnEvent H_ex 8 (WorkloadUpdate 6) w_ex =
     Some (Inr (Some ''unavailable''), w_ex\<lparr>foreign := [Call (Impl 2) (WorkloadUpdate 6)]\<rparr>,
           [Call (Impl 2) (WorkloadUpdate 6)])"
  by (simp_all add: OnEvent_unfold invoke_def logged_def handler_H_ex record_call_def
        w_ex_def)

text \<open>
  A consumer that is a nil pointer of type \<^verbatim>\<open>*DiscoverySink\<close> is not a nil interface
  value: the sink calls it, and the call panics.
\<close>

lemma nil_pointer_consumer_panics:
  "OnEvent H_ex 4 e w_ex = Some (Inl NilDereference, w_ex, [Call (SinkPtr 9) e])"
  by (simp add: OnEvent_unfold invoke_def logged_def w_ex_def)

subsection \<open>A sink wired to itself\<close>

text \<open>
  The event methods of a sink whose consumer is the sink itself call themselves without
  end: the run yields nothing.
\<close>

lemma OnServiceUpdate_self_wired:
  assumes "OnServiceUpdate H s p w = Some y"
  shows "\<not> (\<exists>sk. sinks w s = Some sk \<and> Consumer sk = Some (SinkPtr s))"
  using assms
proof (induction rule: OnServiceUpdate.raw_induct[rotated 1, consumes 1])
  case (1 f H s p w y)
  show ?case
  proof
    assume "\<exists>sk. sinks w s = Some sk \<and> Consumer sk = Some (SinkPtr s)"
    then obtain sk where sk: "sinks w s = Some sk" "Consumer sk = Some (SinkPtr s)"
      by blast
    with 1(2) obtain y' where "f H s p w = Some y'"
      by (auto simp: bind_eq_Some_conv)
    from 1(1)[OF this] sk show False by blast
  qed
qed

lemma OnServiceDelete_self_wired:
  assumes "OnServiceDelete H s p w = Some y"
  shows "\<not> (\<exists>sk. sinks w s = Some sk \<and> Consumer sk = Some (SinkPtr s))"
  using assms
proof (induction rule: OnServiceDelete.raw_induct[rotated 1, consumes 1])
  case (1 f H s p w y)
  show ?case
  proof
    assume "\<exists>sk. sinks w s = Some sk \<and> Consumer sk = Some (SinkPtr s)"
    then obtain sk where sk: "sinks w s = Some sk" "Consumer sk = Some (SinkPtr s)"
      by blast
    with 1(2) obtain y' where "f H s p w = Some y'"
      by (auto simp: bind_eq_Some_conv)
    from 1(1)[OF this] sk show False by blast
  qed
qed

lemma OnWorkloadUpdate_self_wired:
  assumes "OnWorkloadUpdate H s p w = Some y"
  shows "\<not> (\<exists>sk. sinks w s = Some sk \<and> Consumer sk = Some (SinkPtr s))"
  using assms
proof (induction rule: OnWorkloadUpdate.raw_induct[rotated 1, consumes 1])
  case (1 f H s p w y)
  show ?case
  proof
    assume "\<exists>sk. sinks w s = Some sk \<and> Consumer sk = Some (SinkPtr s)"
    then obtain sk where sk: "sinks w s = Some sk" "Consumer sk = Some (SinkPtr s)"
      by blast
    with 1(2) obtain y' where "f H s p w = Some y'"
      by (auto simp: bind_eq_Some_conv)
    from 1(1)[OF this] sk show False by blast
  qed
qed

lemma OnWorkloadDelete_self_wired:
  assumes "OnWorkloadDelete H s p w = Some y"
  shows "\<not> (\<exists>sk. sinks w s = Some sk \<and> Consumer sk = Some (SinkPtr s))"
  using assms
proof (induction rule: OnWorkloadDelete.raw_induct[rotated 1, consumes 1])
  case (1 f H s p w y)
  show ?case
  proof
    assume "\<exists>sk. sinks w s = Some sk \<and> Consumer sk = Some (SinkPtr s)"
    then obtain sk where sk: "sinks w s = Some sk" "Consumer sk = Some (SinkPtr s)"
      by blast
    with 1(2) obtain y' where "f H s p w = Some y'"
      by (auto simp: bind_eq_Some_conv)
    from 1(1)[OF this] sk show False by blast
  qed
qed

lemma self_wired_never_returns:
  assumes "sinks w s = Some sk" and "Consumer sk = Some (SinkPtr s)"
  shows "OnEvent H s e w = None"
proof (cases "OnEvent H s e w")
  case None
  then show ?thesis .
next
  case (Some y)
  then have "\<not> (\<exists>sk. sinks w s = Some sk \<and> Consumer sk = Some (SinkPtr s))"
    by (cases e)
       (simp_all add: OnEvent_def OnServiceUpdate_self_wired OnServiceDelete_self_wired
          OnWorkloadUpdate_self_wired OnWorkloadDelete_self_wired)
  with assms show ?thesis by blast
qed

lemma self_wired_example: "OnEvent H_ex 2 e w_ex = None"
  by (rule self_wired_never_returns[of w_ex 2 "\<lparr>Consumer = Some (SinkPtr 2)\<rparr>"])
     (simp_all add: w_ex_def)

subsection \<open>Pushing through a sink and calling the consumer itself\<close>

lemma OnEvent_wired:
  assumes "sinks w s = Some sk" and "Consumer sk = Some c"
  shows "OnEvent H s e w = logged (Call c e) (invoke H c e w)"
  using assms by (simp add: OnEvent_unfold)

lemma push_feed:
  assumes "stays H s c es w"
  shows "push H s es w = feed H c es w"
  using assms
proof (induction es arbitrary: w)
  case Nil
  show ?case by simp
next
  case (Cons e es)
  from Cons.prems obtain sk where sk: "sinks w s = Some sk" "Consumer sk = Some c"
    by (auto split: option.splits)
  note step = OnEvent_wired[OF sk, of H e]
  show ?case
  proof (cases "invoke H c e w")
    case None
    with step show ?thesis by (simp add: logged_def)
  next
    case (Some y)
    obtain r w1 cs where y: "y = (r, w1, cs)" by (cases y)
    show ?thesis
    proof (cases r)
      case (Inl p)
      with step Some y show ?thesis by (simp add: logged_def)
    next
      case (Inr err)
      with Cons.prems Some y have "stays H s c es w1" by simp
      from Cons.IH[OF this] step Some y Inr
      show ?thesis by (simp add: logged_def split: option.splits)
    qed
  qed
qed

lemma feed_impl:
  "feed H (Impl i) es w =
     (case deliver H i es w of
        None \<Rightarrow> None
      | Some (rs, w') \<Rightarrow> Some (rs, w', map (Call (Impl i)) (take (length rs) es)))"
proof (induction es arbitrary: w)
  case Nil
  show ?case by simp
next
  case (Cons e es)
  show ?case
  proof (cases "handler H i e w")
    case None
    then show ?thesis by (simp add: invoke_def)
  next
    case (Some y)
    obtain r w1 where y: "y = (r, w1)" by (cases y)
    show ?thesis
    proof (cases r)
      case (Inl p)
      with Some y show ?thesis by (simp add: invoke_def)
    next
      case (Inr err)
      with Cons.IH[of w1] Some y show ?thesis
        by (simp add: invoke_def split: option.splits)
    qed
  qed
qed

text \<open>
  A consumer none of whose calls ever stores into the field of the sink leaves it holding
  the consumer through every list of events.
\<close>

lemma stays_if_kept:
  assumes "sinks w s = Some sk" and "Consumer sk = Some c"
      and frame: "\<forall>e w0 r w1 cs. invoke H c e w0 = Some (r, w1, cs) \<longrightarrow> sinks w1 s = sinks w0 s"
  shows "stays H s c es w"
  using assms(1)
proof (induction es arbitrary: w)
  case Nil
  show ?case by simp
next
  case (Cons e es)
  show ?case
  proof (cases "invoke H c e w")
    case None
    with Cons.prems assms(2) show ?thesis by simp
  next
    case (Some y)
    obtain r w1 cs where y: "y = (r, w1, cs)" by (cases y)
    from frame Some y have "sinks w1 s = sinks w s" by blast
    with Cons.prems have "sinks w1 s = Some sk" by simp
    from Cons.IH[OF this] Cons.prems assms(2) Some y show ?thesis
      by (simp split: sum.splits)
  qed
qed

lemma handler_H_once: "handler H_once i e w = detach_after i e w"
  by (cases e) (simp_all add: handler_def H_once_def)

lemma run_once:
  "OnEvent H_once 1 (ServiceUpdate 5) w_ex =
     Some (Inr None, w_once, [Call (Impl 7) (ServiceUpdate 5)])"
  by (simp add: OnEvent_unfold invoke_def logged_def handler_H_once detach_after_def
        AddConsumer_def w_once_def w_detached_def w_ex_def)

lemma sink_update:
  fixes sk :: DiscoverySink
  shows "sk\<lparr>Consumer := c\<rparr> = \<lparr>Consumer = c\<rparr>"
  by (cases sk) simp

section \<open>The specified behaviour\<close>

subsection \<open>An unwired sink\<close>

text \<open>
  C1. For every event kind and every payload, calling the event method on a sink whose
  \<^verbatim>\<open>Consumer\<close> is nil returns the nil error, makes no forwarding call (the list of calls
  is empty, whatever the other implementations are) and leaves the whole store, the sink
  included, as it was.
\<close>

theorem unwired_sink_discards:
  assumes "sinks w s = Some sk" and "Consumer sk = None"
  shows "OnEvent H s e w = Some (Inr None, w, []) \<and>
         OnServiceUpdate H s svc w = Some (Inr None, w, []) \<and>
         OnServiceDelete H s name w = Some (Inr None, w, []) \<and>
         OnWorkloadUpdate H s wrk w = Some (Inr None, w, []) \<and>
         OnWorkloadDelete H s name w = Some (Inr None, w, [])"
proof -
  have ev: "OnEvent H s e' w = Some (Inr None, w, [])" for e'
    using assms by (simp add: OnEvent_unfold)
  from ev[of e] ev[of "ServiceUpdate svc"] ev[of "ServiceDelete name"]
    ev[of "WorkloadUpdate wrk"] ev[of "WorkloadDelete name"]
  show ?thesis by (simp add: OnEvent_def)
qed

theorem unwired_sink_discards_witness:
  "sinks w_ex 3 = Some \<lparr>Consumer = None\<rparr> \<and> Consumer \<lparr>Consumer = None\<rparr> = None \<and>
   OnEvent H_ex 3 (ServiceDelete ns1_svc1) w_ex = Some (Inr None, w_ex, []) \<and>
   OnServiceUpdate H_ex 3 5 w_ex = Some (Inr None, w_ex, [])"
proof -
  have h: "sinks w_ex 3 = Some \<lparr>Consumer = None\<rparr>" by (simp add: w_ex_def)
  have c: "Consumer \<lparr>Consumer = None\<rparr> = None" by simp
  from unwired_sink_discards[OF h c, of H_ex "ServiceDelete ns1_svc1" 5] h c
  show ?thesis by simp
qed

subsection \<open>A wired sink\<close>

text \<open>
  C2. For every event kind, payload and attached (non-nil) consumer \<open>c\<close>, the event
  method of a sink wired to \<open>c\<close> makes exactly the one call of the matching method of
  \<open>c\<close>, with the same payload and on the same store, and yields the outcome and the
  store of that call unchanged. When \<open>c\<close> is another implementation, the list of
  calls is that single call.
\<close>

theorem wired_sink_forwards:
  assumes "sinks w s = Some sk" and "Consumer sk = Some c"
  shows "OnEvent H s e w = logged (Call c e) (invoke H c e w) \<and>
         (\<forall>i. c = Impl i \<longrightarrow>
            OnEvent H s e w =
              (case handler H i e w of
                 None \<Rightarrow> None
               | Some (r, w') \<Rightarrow> Some (r, w', [Call (Impl i) e])))"
  using assms
  by (auto simp add: OnEvent_unfold invoke_def logged_def split: option.splits)

theorem wired_sink_forwards_witness:
  "sinks w_ex 1 = Some \<lparr>Consumer = Some (Impl 7)\<rparr> \<and>
   Consumer \<lparr>Consumer = Some (Impl 7)\<rparr> = Some (Impl 7) \<and>
   OnEvent H_ex 1 (ServiceDelete ns1_svc1) w_ex =
     Some (Inr None, w_ex\<lparr>foreign := [Call (Impl 7) (ServiceDelete ns1_svc1)]\<rparr>,
           [Call (Impl 7) (ServiceDelete ns1_svc1)])"
proof -
  have h: "sinks w_ex 1 = Some \<lparr>Consumer = Some (Impl 7)\<rparr>" by (simp add: w_ex_def)
  have c: "Consumer \<lparr>Consumer = Some (Impl 7)\<rparr> = Some (Impl 7)" by simp
  have f: "foreign w_ex = []" by (simp add: w_ex_def)
  have k: "handler H_ex 7 (ServiceDelete ns1_svc1) w_ex =
      Some (Inr None, w_ex\<lparr>foreign := [Call (Impl 7) (ServiceDelete ns1_svc1)]\<rparr>)"
    by (simp add: handler_H_ex record_call_def f)
  from wired_sink_forwards[OF h c, of H_ex "ServiceDelete ns1_svc1"] h c
  show ?thesis by (simp add: k invoke_def logged_def)
qed

text \<open>
  C3. An event method returns a non-nil error exactly when a consumer is attached and the
  call of that consumer's method returned this very error: the sink makes no error of its
  own, hands the error on as it is, never turns it into nil, and calls the consumer once.
\<close>

theorem sink_error_iff:
  "OnEvent H s e w = Some (Inr (Some err), w', cs) \<longleftrightarrow>
     (\<exists>sk c cs'. sinks w s = Some sk \<and> Consumer sk = Some c \<and> cs = Call c e # cs' \<and>
        invoke H c e w = Some (Inr (Some err), w', cs'))"
  by (auto simp add: OnEvent_unfold logged_def split: option.splits)

theorem sink_error_iff_witness:
  "OnEvent H_ex 8 (WorkloadDelete ns1_svc1) w_ex =
     Some (Inr (Some ''unavailable''),
           w_ex\<lparr>foreign := [Call (Impl 2) (WorkloadDelete ns1_svc1)]\<rparr>,
           [Call (Impl 2) (WorkloadDelete ns1_svc1)])"
proof -
  have h: "sinks w_ex 8 = Some \<lparr>Consumer = Some (Impl 2)\<rparr>" by (simp add: w_ex_def)
  have f: "foreign w_ex = []" by (simp add: w_ex_def)
  have k: "invoke H_ex (Impl 2) (WorkloadDelete ns1_svc1) w_ex =
      Some (Inr (Some ''unavailable''),
            w_ex\<lparr>foreign := [Call (Impl 2) (WorkloadDelete ns1_svc1)]\<rparr>, [])"
    by (simp add: invoke_def handler_H_ex record_call_def f)
  show ?thesis
    unfolding sink_error_iff using h k by simp
qed

subsection \<open>Attaching consumers\<close>

text \<open>
  C4. \<^verbatim>\<open>AddConsumer(c1)\<close> followed by \<^verbatim>\<open>AddConsumer(c2)\<close> leaves the sink as
  \<^verbatim>\<open>AddConsumer(c2)\<close> alone does, with \<open>c2\<close> in its field. In every later store in
  which the field still holds \<open>c2\<close>, an event method calls \<open>c2\<close> and nothing else;
  when \<open>c2\<close> is another implementation the only call is the one of \<open>c2\<close>, so a
  different \<open>c1\<close> is not called at all.
\<close>

theorem AddConsumer_replaces:
  assumes "sinks w s = Some sk"
  shows "\<exists>w1 w2. AddConsumer s (Some c1) w = Inr w1 \<and>
           AddConsumer s (Some c2) w1 = Inr w2 \<and>
           AddConsumer s (Some c2) w = Inr w2 \<and>
           sinks w2 s = Some \<lparr>Consumer = Some c2\<rparr> \<and>
           (\<forall>w3. sinks w3 s = sinks w2 s \<longrightarrow>
              OnEvent H s e w3 = logged (Call c2 e) (invoke H c2 e w3) \<and>
              (\<forall>i r w' cs. c2 = Impl i \<longrightarrow> OnEvent H s e w3 = Some (r, w', cs) \<longrightarrow>
                 handler H i e w3 = Some (r, w') \<and> cs = [Call c2 e] \<and>
                 (c1 \<noteq> c2 \<longrightarrow> (\<forall>e'. Call c1 e' \<notin> set cs))))"
proof -
  define w1 where "w1 = w\<lparr>sinks := (sinks w)(s \<mapsto> sk\<lparr>Consumer := Some c1\<rparr>)\<rparr>"
  define w2 where "w2 = w\<lparr>sinks := (sinks w)(s \<mapsto> sk\<lparr>Consumer := Some c2\<rparr>)\<rparr>"
  have a1: "AddConsumer s (Some c1) w = Inr w1"
    using assms by (simp add: AddConsumer_def w1_def)
  have a2: "AddConsumer s (Some c2) w1 = Inr w2"
    by (simp add: AddConsumer_def w1_def w2_def)
  have a3: "AddConsumer s (Some c2) w = Inr w2"
    using assms by (simp add: AddConsumer_def w2_def)
  have slot: "sinks w2 s = Some \<lparr>Consumer = Some c2\<rparr>"
    by (simp add: w2_def)
  have fwd: "OnEvent H s e w3 = logged (Call c2 e) (invoke H c2 e w3)"
    if "sinks w3 s = sinks w2 s" for w3
    using that slot by (simp add: OnEvent_unfold)
  have only: "handler H i e w3 = Some (r, w') \<and> cs = [Call c2 e] \<and>
                (c1 \<noteq> c2 \<longrightarrow> (\<forall>e'. Call c1 e' \<notin> set cs))"
    if "sinks w3 s = sinks w2 s" "c2 = Impl i" "OnEvent H s e w3 = Some (r, w', cs)"
    for w3 i r w' cs
    using that fwd[OF that(1)]
    by (auto simp: invoke_def logged_def split: option.splits)
  from a1 a2 a3 slot fwd only show ?thesis by blast
qed

theorem AddConsumer_replaces_witness:
  "sinks w_ex 3 = Some \<lparr>Consumer = None\<rparr> \<and>
   AddConsumer 3 (Some (Impl 7)) w_ex =
     Inr (w_ex\<lparr>sinks := (sinks w_ex)(3 \<mapsto> \<lparr>Consumer = Some (Impl 7)\<rparr>)\<rparr>) \<and>
   OnEvent H_ex 3 (ServiceDelete ns1_svc1)
       (w_ex\<lparr>sinks := (sinks w_ex)(3 \<mapsto> \<lparr>Consumer = Some (Impl 7)\<rparr>)\<rparr>) =
     logged (Call (Impl 7) (ServiceDelete ns1_svc1))
       (invoke H_ex (Impl 7) (ServiceDelete ns1_svc1)
          (w_ex\<lparr>sinks := (sinks w_ex)(3 \<mapsto> \<lparr>Consumer = Some (Impl 7)\<rparr>)\<rparr>))"
proof -
  have h: "sinks w_ex 3 = Some \<lparr>Consumer = None\<rparr>" by (simp add: w_ex_def)
  from AddConsumer_replaces[OF h, of "Impl 2" "Impl 7" H_ex "ServiceDelete ns1_svc1"]
  obtain w1 w2 where
    add: "AddConsumer 3 (Some (Impl 7)) w_ex = Inr w2" and
    fwd: "\<forall>w3. sinks w3 3 = sinks w2 3 \<longrightarrow>
            OnEvent H_ex 3 (ServiceDelete ns1_svc1) w3 =
              logged (Call (Impl 7) (ServiceDelete ns1_svc1))
                (invoke H_ex (Impl 7) (ServiceDelete ns1_svc1) w3)"
    by blast
  from add h have w2: "w2 = w_ex\<lparr>sinks := (sinks w_ex)(3 \<mapsto> \<lparr>Consumer = Some (Impl 7)\<rparr>)\<rparr>"
    by (simp add: AddConsumer_def)
  from fwd[rule_format, of w2] add h show ?thesis
    unfolding w2 by simp
qed

text \<open>
  C9. \<^verbatim>\<open>AddConsumer(nil)\<close> is accepted without a panic and leaves the sink as a sink
  that never had a consumer: its field is nil, and every event method then returns nil,
  makes no call and leaves the store as it is.
\<close>

theorem AddConsumer_nil_detaches:
  assumes "sinks w s = Some sk"
  shows "\<exists>w'. AddConsumer s None w = Inr w' \<and> sinks w' s = Some \<lparr>Consumer = None\<rparr> \<and>
           unwired w' s \<and> OnEvent H s e w' = Some (Inr None, w', [])"
  using assms by (simp add: AddConsumer_def OnEvent_unfold unwired_def)

theorem AddConsumer_nil_detaches_witness:
  "sinks w_ex 1 = Some \<lparr>Consumer = Some (Impl 7)\<rparr> \<and>
   AddConsumer 1 None w_ex = Inr w_detached \<and>
   sinks w_detached 1 = Some \<lparr>Consumer = None\<rparr> \<and>
   OnEvent H_ex 1 (ServiceUpdate 5) w_detached = Some (Inr None, w_detached, [])"
proof -
  have h: "sinks w_ex 1 = Some \<lparr>Consumer = Some (Impl 7)\<rparr>" by (simp add: w_ex_def)
  from AddConsumer_nil_detaches[OF h, of H_ex "ServiceUpdate 5"]
  obtain w' where
    add: "AddConsumer 1 None w_ex = Inr w'" and
    rest: "sinks w' 1 = Some \<lparr>Consumer = None\<rparr>"
          "OnEvent H_ex 1 (ServiceUpdate 5) w' = Some (Inr None, w', [])"
    by blast
  from add h have "w' = w_detached"
    by (simp add: AddConsumer_def w_detached_def)
  with add rest h show ?thesis by simp
qed

subsection \<open>The states of a sink\<close>

text \<open>
  C5 as stated fails: the only transition is \<^verbatim>\<open>AddConsumer\<close>, but it is not one-way.
  Sink 1 of the example store is wired, and \<^verbatim>\<open>AddConsumer(nil)\<close> leaves it unwired.
\<close>

theorem detach_counterexample:
  "wired w_ex 1 \<and> AddConsumer 1 None w_ex = Inr w_detached \<and>
   operate H_ex 1 [DoAddConsumer None] w_ex = Some w_detached \<and>
   unwired w_detached 1 \<and> \<not> wired w_detached 1"
  by (simp add: wired_def unwired_def AddConsumer_def w_detached_def w_ex_def)

text \<open>
  C5, amended. A sink is in exactly one of two states, unwired or wired, and the only
  transition is \<^verbatim>\<open>AddConsumer\<close>. It always succeeds on the sink, stores its argument and
  changes nothing else; it leads to wired when the argument is not nil and to unwired
  when it is nil, from either state. The event methods are no transition: on an unwired
  sink they leave the whole store as it is, and on any sink the store after the call is
  the store before it or the store that the one implementation reached by the call left,
  so the state is the same after as before unless that implementation wrote the sink's
  field itself. No run of operations on the sink in which every \<^verbatim>\<open>AddConsumer\<close> passes
  a consumer that is not nil brings a wired sink back to unwired, as long as the other
  implementations do not write the sink's field.
\<close>

theorem sink_states:
  assumes "sinks w s = Some sk"
  shows "(wired w s \<longleftrightarrow> \<not> unwired w s) \<and>
         (\<forall>c. \<exists>w1. AddConsumer s c w = Inr w1 \<and>
                 w1 = w\<lparr>sinks := (sinks w)(s \<mapsto> \<lparr>Consumer = c\<rparr>)\<rparr> \<and>
                 (wired w1 s \<longleftrightarrow> c \<noteq> None) \<and> (unwired w1 s \<longleftrightarrow> c = None)) \<and>
         (\<forall>e r w1 cs. OnEvent H s e w = Some (r, w1, cs) \<longrightarrow>
            (unwired w s \<longrightarrow> w1 = w \<and> cs = [] \<and> unwired w1 s) \<and>
            (w1 = w \<or> (\<exists>i. Call (Impl i) e \<in> set cs \<and> handler H i e w = Some (r, w1))) \<and>
            ((\<forall>i w2. Call (Impl i) e \<in> set cs \<longrightarrow> handler H i e w = Some (r, w2) \<longrightarrow>
                 sinks w2 s = sinks w s) \<longrightarrow>
             (wired w1 s \<longleftrightarrow> wired w s) \<and> (unwired w1 s \<longleftrightarrow> unwired w s))) \<and>
         (wired w s \<and> DoAddConsumer None \<notin> set ops \<and>
          (\<forall>i e w0 r w1. handler H i e w0 = Some (r, w1) \<longrightarrow> sinks w1 s = sinks w0 s) \<and>
          operate H s ops w = Some w' \<longrightarrow> wired w' s)"
proof -
  have two: "wired w s \<longleftrightarrow> \<not> unwired w s"
    using assms by (simp add: wired_def unwired_def)
  have add: "\<exists>w1. AddConsumer s c w = Inr w1 \<and>
               w1 = w\<lparr>sinks := (sinks w)(s \<mapsto> \<lparr>Consumer = c\<rparr>)\<rparr> \<and>
               (wired w1 s \<longleftrightarrow> c \<noteq> None) \<and> (unwired w1 s \<longleftrightarrow> c = None)" for c
  proof -
    have w1: "AddConsumer s c w = Inr (w\<lparr>sinks := (sinks w)(s \<mapsto> \<lparr>Consumer = c\<rparr>)\<rparr>)"
      using assms by (simp add: AddConsumer_def sink_update)
    from AddConsumer_wired[OF w1] w1 show ?thesis by blast
  qed
  have ev: "(unwired w s \<longrightarrow> w1 = w \<and> cs = [] \<and> unwired w1 s) \<and>
            (w1 = w \<or> (\<exists>i. Call (Impl i) e \<in> set cs \<and> handler H i e w = Some (r, w1))) \<and>
            ((\<forall>i w2. Call (Impl i) e \<in> set cs \<longrightarrow> handler H i e w = Some (r, w2) \<longrightarrow>
                 sinks w2 s = sinks w s) \<longrightarrow>
             (wired w1 s \<longleftrightarrow> wired w s) \<and> (unwired w1 s \<longleftrightarrow> unwired w s))"
    if run: "OnEvent H s e w = Some (r, w1, cs)" for e r w1 cs
  proof -
    have a: "unwired w s \<longrightarrow> w1 = w \<and> cs = [] \<and> unwired w1 s"
      using run assms by (auto simp: OnEvent_unfold unwired_def split: option.splits)
    have b: "w1 = w \<or> (\<exists>i. Call (Impl i) e \<in> set cs \<and> handler H i e w = Some (r, w1))"
      using OnEvent_run[OF run] unfolding passes_on_def by auto
    have c: "wired w1 s = wired w s \<and> unwired w1 s = unwired w s"
      if "\<forall>i w2. Call (Impl i) e \<in> set cs \<longrightarrow> handler H i e w = Some (r, w2) \<longrightarrow>
            sinks w2 s = sinks w s"
    proof -
      from b that have "sinks w1 s = sinks w s" by auto
      then show ?thesis by (simp add: wired_def unwired_def)
    qed
    from a b c show ?thesis by blast
  qed
  have seq: "wired w' s"
    if "wired w s \<and> DoAddConsumer None \<notin> set ops \<and>
        (\<forall>i e w0 r w1. handler H i e w0 = Some (r, w1) \<longrightarrow> sinks w1 s = sinks w0 s) \<and>
        operate H s ops w = Some w'"
    using that operate_wired by blast
  from two add ev seq show ?thesis by blast
qed

theorem sink_states_witness:
  "sinks w_ex 1 = Some \<lparr>Consumer = Some (Impl 7)\<rparr> \<and> wired w_ex 1 \<and>
   operate H_ex 1 [DoEvent (ServiceUpdate 5), DoAddConsumer (Some (Impl 2)),
                   DoEvent (ServiceDelete ns1_svc1)] w_ex =
     Some (w_ex\<lparr>sinks := (sinks w_ex)(1 \<mapsto> \<lparr>Consumer = Some (Impl 2)\<rparr>),
                foreign := [Call (Impl 7) (ServiceUpdate 5),
                            Call (Impl 2) (ServiceDelete ns1_svc1)]\<rparr>) \<and>
   wired (w_ex\<lparr>sinks := (sinks w_ex)(1 \<mapsto> \<lparr>Consumer = Some (Impl 2)\<rparr>),
               foreign := [Call (Impl 7) (ServiceUpdate 5),
                           Call (Impl 2) (ServiceDelete ns1_svc1)]\<rparr>) 1"
proof -
  let ?ops = "[DoEvent (ServiceUpdate 5), DoAddConsumer (Some (Impl 2)),
               DoEvent (ServiceDelete ns1_svc1)]"
  let ?w' = "w_ex\<lparr>sinks := (sinks w_ex)(1 \<mapsto> \<lparr>Consumer = Some (Impl 2)\<rparr>),
                  foreign := [Call (Impl 7) (ServiceUpdate 5),
                              Call (Impl 2) (ServiceDelete ns1_svc1)]\<rparr>"
  have h: "sinks w_ex 1 = Some \<lparr>Consumer = Some (Impl 7)\<rparr>" by (simp add: w_ex_def)
  have start: "wired w_ex 1" by (simp add: wired_def w_ex_def)
  have adds: "DoAddConsumer None \<notin> set ?ops" by simp
  have frame: "\<forall>i e w0 r w1. handler H_ex i e w0 = Some (r, w1) \<longrightarrow> sinks w1 1 = sinks w0 1"
    by (auto simp: handler_H_ex record_call_def)
  have run: "operate H_ex 1 ?ops w_ex = Some ?w'"
    by (simp add: OnEvent_unfold invoke_def logged_def handler_H_ex record_call_def
          AddConsumer_def w_ex_def)
  from sink_states[OF h, of H_ex ?ops ?w'] start adds frame run
  have "wired ?w' 1" by blast
  with h start run show ?thesis by blast
qed

subsection \<open>Chains of sinks\<close>

text \<open>
  C6. With sink \<open>a\<close> wired to sink \<open>b\<close> and \<open>b\<close> wired to the terminal consumer
  \<open>i\<close>, an event pushed into \<open>a\<close> reaches \<open>i\<close> with the same kind and payload, by
  one call from \<open>a\<close> to \<open>b\<close> and one from \<open>b\<close> to \<open>i\<close>, and what \<open>i\<close> yields
  (nil, an error, a panic, or no return) is what \<open>a\<close> yields: outcome and store are
  those of calling \<open>i\<close> directly.
\<close>

theorem chain_forwards:
  assumes "sinks w a = Some ska" and "Consumer ska = Some (SinkPtr b)"
      and "sinks w b = Some skb" and "Consumer skb = Some (Impl i)"
  shows "OnEvent H a e w =
           (case handler H i e w of
              None \<Rightarrow> None
            | Some (r, w') \<Rightarrow> Some (r, w', [Call (SinkPtr b) e, Call (Impl i) e])) \<and>
         OnEvent H a e w = logged (Call (SinkPtr b) e) (OnEvent H b e w) \<and>
         map_option (\<lambda>(r, w', cs). (r, w')) (OnEvent H a e w) = handler H i e w \<and>
         map_option (\<lambda>(r, w', cs). (r, w')) (OnEvent H b e w) = handler H i e w"
proof -
  have b: "OnEvent H b e w =
           (case handler H i e w of
              None \<Rightarrow> None
            | Some (r, w') \<Rightarrow> Some (r, w', [Call (Impl i) e]))"
    using assms(3,4) by (rule OnEvent_wired_impl)
  have a: "OnEvent H a e w = logged (Call (SinkPtr b) e) (OnEvent H b e w)"
    using assms(1,2) by (simp add: OnEvent_unfold invoke_def)
  show ?thesis
    unfolding a b by (simp add: logged_def split: option.splits)
qed

theorem chain_forwards_witness:
  "sinks w_ex 0 = Some \<lparr>Consumer = Some (SinkPtr 1)\<rparr> \<and>
   sinks w_ex 1 = Some \<lparr>Consumer = Some (Impl 7)\<rparr> \<and>
   OnEvent H_ex 0 (WorkloadUpdate 6) w_ex =
     Some (Inr None, w_ex\<lparr>foreign := [Call (Impl 7) (WorkloadUpdate 6)]\<rparr>,
           [Call (SinkPtr 1) (WorkloadUpdate 6), Call (Impl 7) (WorkloadUpdate 6)])"
proof -
  have a: "sinks w_ex 0 = Some \<lparr>Consumer = Some (SinkPtr 1)\<rparr>" by (simp add: w_ex_def)
  have b: "sinks w_ex 1 = Some \<lparr>Consumer = Some (Impl 7)\<rparr>" by (simp add: w_ex_def)
  have f: "foreign w_ex = []" by (simp add: w_ex_def)
  have k: "handler H_ex 7 (WorkloadUpdate 6) w_ex =
      Some (Inr None, w_ex\<lparr>foreign := [Call (Impl 7) (WorkloadUpdate 6)]\<rparr>)"
    by (simp add: handler_H_ex record_call_def f)
  from chain_forwards[OF a _ b, where H = H_ex and e = "WorkloadUpdate 6" and i = 7] a b
  show ?thesis by (simp add: k)
qed

subsection \<open>Sequences of events\<close>

text \<open>
  C7 as stated fails: a consumer can be detached between two events, and it can do that
  itself. Sink 1 of the example store is wired to the implementation 7; when that
  implementation calls \<^verbatim>\<open>AddConsumer(nil)\<close> on the sink while it handles the first
  event, the second event pushed into the sink returns nil and reaches nobody.
\<close>

theorem push_drops_counterexample:
  "wired w_ex 1 \<and>
   push H_once 1 [ServiceUpdate 5, WorkloadUpdate 6] w_ex =
     Some ([Inr None, Inr None], w_once, [Call (Impl 7) (ServiceUpdate 5)]) \<and>
   foreign w_once = [Call (Impl 7) (ServiceUpdate 5)]"
  by (simp add: OnEvent_unfold invoke_def logged_def handler_H_once detach_after_def
        AddConsumer_def wired_def w_once_def w_detached_def w_ex_def)

text \<open>
  C7, amended. A list of events pushed one after the other into a sink whose field holds
  the consumer \<open>c\<close> each time an event is pushed (nobody, \<open>c\<close> included, stores
  something else into the field in between) reaches \<open>c\<close> as exactly these events in
  the same order: pushing them through the sink is calling \<open>c\<close> itself once per event
  in the order of the list, with the same outcomes, the same store and the same calls,
  nothing reordered, held back, repeated or left out. For a consumer that is another
  implementation the calls are one call per event pushed, in order.
\<close>

theorem push_in_order:
  assumes "stays H s c es w"
  shows "push H s es w = feed H c es w \<and>
         (\<forall>i. c = Impl i \<longrightarrow>
            push H s es w =
              (case deliver H i es w of
                 None \<Rightarrow> None
               | Some (rs, w') \<Rightarrow>
                   Some (rs, w', map (Call (Impl i)) (take (length rs) es))))"
  using push_feed[OF assms] feed_impl[of H _ es w] by auto

theorem push_in_order_witness:
  "stays H_ex 0 (SinkPtr 1) [ServiceUpdate 5, WorkloadUpdate 6, ServiceDelete ns1_svc1] w_ex \<and>
   push H_ex 0 [ServiceUpdate 5, WorkloadUpdate 6, ServiceDelete ns1_svc1] w_ex =
     Some ([Inr None, Inr None, Inr None],
           w_ex\<lparr>foreign := [Call (Impl 7) (ServiceUpdate 5), Call (Impl 7) (WorkloadUpdate 6),
                             Call (Impl 7) (ServiceDelete ns1_svc1)]\<rparr>,
           [Call (SinkPtr 1) (ServiceUpdate 5), Call (Impl 7) (ServiceUpdate 5),
            Call (SinkPtr 1) (WorkloadUpdate 6), Call (Impl 7) (WorkloadUpdate 6),
            Call (SinkPtr 1) (ServiceDelete ns1_svc1), Call (Impl 7) (ServiceDelete ns1_svc1)])"
proof -
  let ?es = "[ServiceUpdate 5, WorkloadUpdate 6, ServiceDelete ns1_svc1]"
  have st: "stays H_ex 0 (SinkPtr 1) ?es w_ex"
    by (simp add: OnEvent_unfold invoke_def logged_def handler_H_ex record_call_def w_ex_def)
  have fd: "feed H_ex (SinkPtr 1) ?es w_ex =
     Some ([Inr None, Inr None, Inr None],
           w_ex\<lparr>foreign := [Call (Impl 7) (ServiceUpdate 5), Call (Impl 7) (WorkloadUpdate 6),
                             Call (Impl 7) (ServiceDelete ns1_svc1)]\<rparr>,
           [Call (SinkPtr 1) (ServiceUpdate 5), Call (Impl 7) (ServiceUpdate 5),
            Call (SinkPtr 1) (WorkloadUpdate 6), Call (Impl 7) (WorkloadUpdate 6),
            Call (SinkPtr 1) (ServiceDelete ns1_svc1), Call (Impl 7) (ServiceDelete ns1_svc1)])"
    by (simp add: OnEvent_unfold invoke_def logged_def handler_H_ex record_call_def w_ex_def)
  from push_in_order[OF st] have "push H_ex 0 ?es w_ex = feed H_ex (SinkPtr 1) ?es w_ex"
    by blast
  with st fd show ?thesis by simp
qed

subsection \<open>What the event methods leave alone\<close>



text \<open>
  C10 as stated fails: the field of a sink can differ after an event method from what it
  was before, when the consumer that the method calls stores into it. Sink 1 of the
  example store is wired to the implementation 7; when that implementation calls
  \<^verbatim>\<open>AddConsumer(nil)\<close> on the sink while it handles the event, the field is nil after
  \<^verbatim>\<open>OnServiceUpdate\<close> returned.
\<close>

theorem rewired_counterexample:
  "sinks w_ex 1 = Some \<lparr>Consumer = Some (Impl 7)\<rparr> \<and>
   OnEvent H_once 1 (ServiceUpdate 5) w_ex =
     Some (Inr None, w_once, [Call (Impl 7) (ServiceUpdate 5)]) \<and>
   OnServiceUpdate H_once 1 5 w_ex =
     Some (Inr None, w_once, [Call (Impl 7) (ServiceUpdate 5)]) \<and>
   sinks w_once 1 = Some \<lparr>Consumer = None\<rparr>"
  using run_once
  by (simp add: OnEvent_def w_once_def w_detached_def w_ex_def)

text \<open>
  C10, amended. No event method writes a sink: after a run that returned, whatever it
  returned, the store is the store before the run, or the store that the one
  implementation reached by the run left when started on the store before the run. On an
  unwired sink it is the store before the run. So the \<^verbatim>\<open>Consumer\<close> field of every sink
  is after the call what it was before, unless the implementation that the call reached
  stored into it itself. \<^verbatim>\<open>AddConsumer\<close> stores its argument into the field of its sink
  and changes nothing else.
\<close>

theorem events_keep_consumer:
  assumes run: "OnEvent H s e w = Some (r, w', cs)"
  shows "((w' = w \<and> (\<forall>i. Call (Impl i) e \<notin> set cs)) \<or>
          (\<exists>i. handler H i e w = Some (r, w') \<and> Call (Impl i) e \<in> set cs)) \<and>
         (unwired w s \<longrightarrow> w' = w) \<and>
         ((\<forall>i w1. Call (Impl i) e \<in> set cs \<longrightarrow> handler H i e w = Some (r, w1) \<longrightarrow>
              sinks w1 = sinks w) \<longrightarrow>
          sinks w' = sinks w) \<and>
         (\<forall>c w1. AddConsumer s c w = Inr w1 \<longrightarrow>
            w1 = w\<lparr>sinks := (sinks w)(s \<mapsto> \<lparr>Consumer = c\<rparr>)\<rparr>)"
proof -
  have a: "(w' = w \<and> (\<forall>i. Call (Impl i) e \<notin> set cs)) \<or>
           (\<exists>i. handler H i e w = Some (r, w') \<and> Call (Impl i) e \<in> set cs)"
    using OnEvent_run[OF run] unfolding passes_on_def hops_def by auto
  have b: "unwired w s \<longrightarrow> w' = w"
    using run by (auto simp: OnEvent_unfold unwired_def split: option.splits)
  have c: "sinks w' = sinks w"
    if "\<forall>i w1. Call (Impl i) e \<in> set cs \<longrightarrow> handler H i e w = Some (r, w1) \<longrightarrow>
          sinks w1 = sinks w"
    using a that by auto
  have d: "\<forall>c w1. AddConsumer s c w = Inr w1 \<longrightarrow>
             w1 = w\<lparr>sinks := (sinks w)(s \<mapsto> \<lparr>Consumer = c\<rparr>)\<rparr>"
    by (auto simp: AddConsumer_def sink_update split: option.splits)
  from a b c d show ?thesis by blast
qed

theorem events_keep_consumer_witness:
  "OnEvent H_ex 8 (WorkloadUpdate 6) w_ex =
     Some (Inr (Some ''unavailable''), w_ex\<lparr>foreign := [Call (Impl 2) (WorkloadUpdate 6)]\<rparr>,
           [Call (Impl 2) (WorkloadUpdate 6)]) \<and>
   sinks (w_ex\<lparr>foreign := [Call (Impl 2) (WorkloadUpdate 6)]\<rparr>) = sinks w_ex"
proof -
  have frame: "\<forall>i w1. Call (Impl i) (WorkloadUpdate 6) \<in> set [Call (Impl 2) (WorkloadUpdate 6)] \<longrightarrow>
      handler H_ex i (WorkloadUpdate 6) w_ex = Some (Inr (Some ''unavailable''), w1) \<longrightarrow>
      sinks w1 = sinks w_ex"
    by (auto simp: handler_H_ex record_call_def)
  from events_keep_consumer[OF run_ex(2)] frame
  have "sinks (w_ex\<lparr>foreign := [Call (Impl 2) (WorkloadUpdate 6)]\<rparr>) = sinks w_ex"
    by blast
  with run_ex(2) show ?thesis by blast
qed


end
